theory Spec2Isabelle
  imports Main "HOL-Library.Multiset" "HOL-Library.Sublist"
begin

section \<open>The HintQA demo pipeline: prompts, exemplars, the RAG loop, the result table\<close>

text \<open>
  The notebook \<^verbatim>\<open>Code/demo.ipynb\<close> defines four functions that carry the logic of the
  pipeline: \<^verbatim>\<open>generate_prompt\<close>, \<^verbatim>\<open>generate_shots\<close>, \<^verbatim>\<open>rag\<close> and
  \<^verbatim>\<open>print_result_table\<close>. Each is embedded below as a HOL function. Python exceptions
  are values of the type \<open>error\<close>; the random generator, the completion endpoint and the
  table library are outside the notebook and are made explicit: the generator as a tape of
  numbers that is consumed, the endpoint as a function of the call number and the request,
  the table as the data the library is handed.
\<close>

subsection \<open>Strings\<close>

definition newline :: string where
  "newline = [CHR 0x0A]"

text \<open>\<^verbatim>\<open>sep.join(xs)\<close>\<close>

fun join :: "string \<Rightarrow> string list \<Rightarrow> string" where
  "join sep [] = []"
| "join sep [x] = x"
| "join sep (x # y # ys) = x @ sep @ join sep (y # ys)"

text \<open>
  \<^verbatim>\<open>str.isspace\<close> on one character, for the code points below 256 that a \<open>char\<close> holds:
  tab to carriage return, the four separators 28 to 31, the space, NEL and the no-break
  space.
\<close>

definition is_space :: "char \<Rightarrow> bool" where
  "is_space c =
     (let n = (of_char c :: nat)
      in (9 \<le> n \<and> n \<le> 13) \<or> (28 \<le> n \<and> n \<le> 32) \<or> n = 133 \<or> n = 160)"

text \<open>\<^verbatim>\<open>s.strip()\<close>\<close>

definition strip :: "string \<Rightarrow> string" where
  "strip s = rev (dropWhile is_space (rev (dropWhile is_space s)))"

subsection \<open>\<^verbatim>\<open>generate_prompt\<close>\<close>

text \<open>
  The f-string of the source, line by line; the continuation lines of the literal carry the
  four spaces of the function body's indentation.
\<close>

definition generate_prompt :: "string \<Rightarrow> string \<Rightarrow> string" where
  "generate_prompt question context =
     ''Based on the context, answer the following question:'' @ newline @
     ''    Context:'' @ newline @
     ''    '' @ context @ newline @
     newline @
     ''    Question:'' @ newline @
     ''    '' @ question @ newline @
     newline @
     ''    Answer:'' @ newline @
     ''    ''"

subsection \<open>Data\<close>

text \<open>
  An instance of the dataset, with the text already taken out of the wrapper objects:
  \<^verbatim>\<open>instance.question.question\<close>, \<^verbatim>\<open>[a.answer for a in instance.answers]\<close> and
  \<^verbatim>\<open>[h.hint for h in instance.hints]\<close>.
\<close>

record Instance =
  question :: string
  answers :: "string list"
  hints :: "string list"

text \<open>A chat message is the Python dict with the two keys \<^verbatim>\<open>role\<close> and \<^verbatim>\<open>content\<close>.\<close>

record message =
  role :: string
  content :: string

text \<open>The exceptions that the four functions and the library calls they make can raise.\<close>

datatype error = ValueError | IndexError | AttributeError | APIError string

text \<open>
  What the completion endpoint answers: the list \<^verbatim>\<open>answer.choices\<close>, each choice reduced to
  its \<^verbatim>\<open>message.content\<close>, which the client library types as an optional string.
\<close>

record completion =
  choices :: "string option list"

record request =
  model :: string
  messages :: "message list"

text \<open>
  The endpoint is a parameter: its answer may depend on how many calls were made before
  and on the request. A failure of the remote call is an \<open>Inl\<close>.
\<close>

type_synonym endpoint = "nat \<Rightarrow> request \<Rightarrow> error + completion"

text \<open>
  The random generator is a tape of natural numbers; a draw reads the head and moves on.
  Every sequence of draws that Python's generator can make is the run of some tape.
\<close>

type_synonym rng = "nat \<Rightarrow> nat"

text \<open>
  The state the loop threads: the generator, and the log of the requests sent to the
  endpoint, oldest first.
\<close>

record world =
  gen :: rng
  calls :: "request list"

subsection \<open>\<^verbatim>\<open>random.sample\<close>\<close>

text \<open>
  \<^verbatim>\<open>random.sample(population, k)\<close> of Python's standard library. It raises
  \<^verbatim>\<open>ValueError\<close> unless \<open>0 \<le> k \<le> len(population)\<close>, before drawing anything, and
  otherwise returns \<open>k\<close> elements taken from distinct positions, in the order drawn. The
  selection is the one CPython runs on a copy of the population: draw
  \<open>j = randbelow(n - i)\<close>, take \<open>pool[j]\<close>, move the last element not yet selected into
  position \<open>j\<close>. (For a population much larger than the sample CPython instead draws
  positions until an unused one comes up; the outcomes are the same \<open>k\<close> distinct
  positions, and the model keeps the first scheme throughout.) The guard keeps \<open>k\<close> within
  the length of the population, so no draw is ever made from an empty pool.
\<close>

definition randbelow :: "nat \<Rightarrow> rng \<Rightarrow> nat \<times> rng" where
  "randbelow n g = (g 0 mod n, \<lambda>i. g (Suc i))"

fun sample_pool :: "'a list \<Rightarrow> nat \<Rightarrow> rng \<Rightarrow> 'a list \<times> rng" where
  "sample_pool pool 0 g = ([], g)"
| "sample_pool pool (Suc k) g =
     (case randbelow (length pool) g of
        (j, g') \<Rightarrow>
          (case sample_pool (butlast (pool[j := last pool])) k g' of
             (result, g'') \<Rightarrow> (pool ! j # result, g'')))"

definition random_sample :: "'a list \<Rightarrow> int \<Rightarrow> rng \<Rightarrow> (error + 'a list) \<times> rng" where
  "random_sample population k g =
     (if 0 \<le> k \<and> k \<le> int (length population)
      then (case sample_pool population (nat k) g of (result, g') \<Rightarrow> (Inr result, g'))
      else (Inl ValueError, g))"

subsection \<open>\<^verbatim>\<open>generate_shots\<close>\<close>

text \<open>
  The \<^verbatim>\<open>for example in example_shots\<close> loop, with \<open>examples\<close> as the accumulator.
  \<^verbatim>\<open>example.answers[0]\<close> raises \<^verbatim>\<open>IndexError\<close> on an instance without answers.
\<close>

fun shots_loop :: "Instance list \<Rightarrow> message list \<Rightarrow> error + message list" where
  "shots_loop [] examples = Inr examples"
| "shots_loop (example # rest) examples =
     (let example_question = question example;
          example_context = join newline (hints example)
      in case answers example of
           [] \<Rightarrow> Inl IndexError
         | example_answer # _ \<Rightarrow>
             (let prompt = generate_prompt example_question example_context;
                  examples = examples @ [\<lparr>role = ''user'', content = prompt\<rparr>];
                  examples = examples @ [\<lparr>role = ''assistant'', content = example_answer\<rparr>]
              in shots_loop rest examples))"

text \<open>
  \<open>pool\<close> stands for \<^verbatim>\<open>dataset['entire'].get_instances()\<close>. The generator comes back
  advanced by the draws made.
\<close>

definition generate_shots :: "Instance list \<Rightarrow> int \<Rightarrow> rng \<Rightarrow> (error + message list) \<times> rng" where
  "generate_shots pool num_of_shots g =
     (case random_sample pool num_of_shots g of
        (Inl e, g') \<Rightarrow> (Inl e, g')
      | (Inr example_shots, g') \<Rightarrow> (shots_loop example_shots [], g'))"

subsection \<open>\<^verbatim>\<open>rag\<close>\<close>

definition system_prompt :: string where
  "system_prompt = ''You are a precise answering assistant. Always provide the shortest possible answer to factoid questions. Avoid explanations or additional details.''"

definition model_name :: string where
  "model_name = ''meta-llama/Llama-3.3-70B-Instruct-Turbo''"

text \<open>
  \<^verbatim>\<open>pipeline.chat.completions.create(model=..., messages=...)\<close>: the request is logged, then
  the endpoint answers or fails.
\<close>

definition create :: "endpoint \<Rightarrow> string \<Rightarrow> message list \<Rightarrow> world \<Rightarrow> (error + completion) \<times> world" where
  "create ep m msgs w =
     (let r = \<lparr>model = m, messages = msgs\<rparr>
      in (ep (length (calls w)) r, w\<lparr>calls := calls w @ [r]\<rparr>))"

text \<open>
  One pass through the body of the \<^verbatim>\<open>for instance in ...\<close> loop. The accumulator is the
  pair \<open>(predicted_answers, ground_truths)\<close>. \<open>num_of_shots\<close> is the second argument of the
  call of \<^verbatim>\<open>generate_shots\<close>, which the source writes as the literal 5.
\<close>

definition rag_body ::
  "int \<Rightarrow> endpoint \<Rightarrow> Instance list \<Rightarrow> string list \<times> string list \<Rightarrow> Instance \<Rightarrow> world
     \<Rightarrow> (error + string list \<times> string list) \<times> world" where
  "rag_body num_of_shots ep pool acc inst w =
     (let messages = [\<lparr>role = ''system'', content = system_prompt\<rparr>]
      in case generate_shots pool num_of_shots (gen w) of
           (Inl e, g) \<Rightarrow> (Inl e, w\<lparr>gen := g\<rparr>)
         | (Inr example_shots, g) \<Rightarrow>
             (let w1 = w\<lparr>gen := g\<rparr>;
                  messages = messages @ example_shots;
                  instance_question = question inst;
                  instance_context = join newline (hints inst)
              in case answers inst of
                   [] \<Rightarrow> (Inl IndexError, w1)
                 | instance_answer # _ \<Rightarrow>
                     (let prompt = generate_prompt instance_question instance_context;
                          messages = messages @ [\<lparr>role = ''user'', content = prompt\<rparr>]
                      in case create ep model_name messages w1 of
                           (Inl e, w2) \<Rightarrow> (Inl e, w2)
                         | (Inr answer, w2) \<Rightarrow>
                             (case choices answer of
                                [] \<Rightarrow> (Inl IndexError, w2)
                              | None # _ \<Rightarrow> (Inl AttributeError, w2)
                              | Some text # _ \<Rightarrow>
                                  (let predicted_answer = strip text
                                   in (Inr (fst acc @ [predicted_answer],
                                            snd acc @ [instance_answer]), w2))))))"

text \<open>The loop: an exception leaves it at once, and the accumulator is lost with it.\<close>

fun rag_loop ::
  "int \<Rightarrow> endpoint \<Rightarrow> Instance list \<Rightarrow> Instance list \<Rightarrow> string list \<times> string list \<Rightarrow> world
     \<Rightarrow> (error + string list \<times> string list) \<times> world" where
  "rag_loop num_of_shots ep pool [] acc w = (Inr acc, w)"
| "rag_loop num_of_shots ep pool (inst # rest) acc w =
     (case rag_body num_of_shots ep pool acc inst w of
        (Inl e, w') \<Rightarrow> (Inl e, w')
      | (Inr acc', w') \<Rightarrow> rag_loop num_of_shots ep pool rest acc' w')"

text \<open>
  Modelled from the spec: \<^verbatim>\<open>EvaluationLoop.run(pool, numShots, systemPrompt, model)\<close> of
  section 4.4, the loop with the number of exemplars as an argument. The notebook has no
  such function: its \<^verbatim>\<open>rag\<close> takes the dataset alone and asks for five exemplars. What
  is missing is the argument; the loop and its body are those of \<^verbatim>\<open>rag\<close>, which is the
  case \<open>num_of_shots = 5\<close> below.
\<close>

definition rag_shots ::
  "int \<Rightarrow> endpoint \<Rightarrow> Instance list \<Rightarrow> world \<Rightarrow> (error + string list \<times> string list) \<times> world" where
  "rag_shots num_of_shots ep pool w = rag_loop num_of_shots ep pool pool ([], []) w"

text \<open>\<^verbatim>\<open>rag(dataset)\<close> itself: five exemplars for every instance.\<close>

definition rag :: "endpoint \<Rightarrow> Instance list \<Rightarrow> world \<Rightarrow> (error + string list \<times> string list) \<times> world" where
  "rag ep pool w = rag_shots 5 ep pool w"

subsection \<open>\<^verbatim>\<open>print_result_table\<close>\<close>

text \<open>
  The table library is reduced to the data it is given: the field names and the rows.
  Its constructor refuses duplicate field names; \<^verbatim>\<open>add_row\<close> refuses a row whose length
  differs from the number of fields, and names the fields \<^verbatim>\<open>Field 1\<close>, \<^verbatim>\<open>Field 2\<close>, ...
  when the table has none yet.
\<close>

record pretty_table =
  field_names :: "string list"
  rows :: "string list list"

definition PrettyTable :: "string list \<Rightarrow> error + pretty_table" where
  "PrettyTable names =
     (if distinct names then Inr \<lparr>field_names = names, rows = []\<rparr> else Inl ValueError)"

fun decimal :: "nat \<Rightarrow> string" where
  "decimal n =
     (if n < 10 then [char_of (48 + n)]
      else decimal (n div 10) @ [char_of (48 + n mod 10)])"

definition add_row :: "pretty_table \<Rightarrow> string list \<Rightarrow> error + pretty_table" where
  "add_row table row =
     (if field_names table \<noteq> [] \<and> length row \<noteq> length (field_names table)
      then Inl ValueError
      else
        (let table = (if field_names table = []
                      then table\<lparr>field_names :=
                             map (\<lambda>n. ''Field '' @ decimal (n + 1)) [0..<length row]\<rparr>
                      else table)
         in Inr (table\<lparr>rows := rows table @ [row]\<rparr>)))"

text \<open>What reaches standard output: \<^verbatim>\<open>print()\<close> and \<^verbatim>\<open>print(table)\<close>.\<close>

datatype stdout_item = Blank | Printed pretty_table

text \<open>The \<^verbatim>\<open>for predicted, ground in zip(...)\<close> loop.\<close>

fun add_rows :: "(string \<times> string) list \<Rightarrow> pretty_table \<Rightarrow> error + pretty_table" where
  "add_rows [] table = Inr table"
| "add_rows ((predicted, ground) # rest) table =
     (case add_row table [predicted, ground] of
        Inl e \<Rightarrow> Inl e
      | Inr table' \<Rightarrow> add_rows rest table')"

definition print_result_table :: "string list \<Rightarrow> string list \<Rightarrow> error + stdout_item list" where
  "print_result_table predicted_answers correct_answers =
     (case PrettyTable [''Predicted'', ''Ground Truth''] of
        Inl e \<Rightarrow> Inl e
      | Inr table \<Rightarrow>
          (case add_rows (zip predicted_answers correct_answers) table of
             Inl e \<Rightarrow> Inl e
           | Inr table' \<Rightarrow> Inr [Blank, Printed table']))"

subsection \<open>Notions used to state the properties\<close>


text \<open>
  The two messages that the exemplar loop appends for one instance, and the request that
  the body of the main loop builds for a target instance from the exemplars drawn for it.
  \<open>hd\<close> is only ever read on a list known not to be empty.
\<close>

definition shot_pair :: "Instance \<Rightarrow> message list" where
  "shot_pair example =
     [\<lparr>role = ''user'',
       content = generate_prompt (question example) (join newline (hints example))\<rparr>,
      \<lparr>role = ''assistant'', content = hd (answers example)\<rparr>]"

definition target_request :: "Instance list \<Rightarrow> Instance \<Rightarrow> request" where
  "target_request exs inst =
     \<lparr>model = model_name,
      messages = \<lparr>role = ''system'', content = system_prompt\<rparr> # concat (map shot_pair exs) @
        [\<lparr>role = ''user'',
          content = generate_prompt (question inst) (join newline (hints inst))\<rparr>]\<rparr>"

text \<open>
  The pool of two instances of the specification's end-to-end scenario, and a generator
  tape for concrete runs.
\<close>

definition instance_A :: Instance where
  "instance_A = \<lparr>question = ''Capital of France?'', answers = [''Paris''],
                  hints = [''Paris is the capital of France.'']\<rparr>"

definition instance_B :: Instance where
  "instance_B = \<lparr>question = ''Year WWII ended?'', answers = [''1945''], hints = []\<rparr>"

definition pool_AB :: "Instance list" where
  "pool_AB = [instance_A, instance_B]"

definition tape :: rng where
  "tape i = 2 * i + 1"

text \<open>
  A pool of five instances, large enough for \<^verbatim>\<open>rag\<close> to draw its five exemplars, with
  an endpoint that always answers, one that fails at a chosen call, and a starting state
  with an empty log. The two requests are the ones of the scenario when no exemplar is
  asked for.
\<close>

definition instance_C :: Instance where
  "instance_C = \<lparr>question = ''Largest planet?'', answers = [''Jupiter'', ''Jove''],
                  hints = [''It is a gas giant.'', ''It has a red spot.'']\<rparr>"

definition instance_D :: Instance where
  "instance_D = \<lparr>question = ''H2O is?'', answers = [''Water''], hints = [''You drink it.'']\<rparr>"

definition instance_E :: Instance where
  "instance_E = \<lparr>question = ''2 + 2?'', answers = [''4''], hints = []\<rparr>"

definition pool_five :: "Instance list" where
  "pool_five = [instance_A, instance_B, instance_C, instance_D, instance_E]"

definition endpoint_ok :: endpoint where
  "endpoint_ok n r = Inr \<lparr>choices = [Some '' Paris '']\<rparr>"

definition endpoint_down_at :: "nat \<Rightarrow> endpoint" where
  "endpoint_down_at m n r =
     (if n = m then Inl (APIError ''429'') else Inr \<lparr>choices = [Some ''ok'']\<rparr>)"

definition world0 :: world where
  "world0 = \<lparr>gen = tape, calls = []\<rparr>"





section \<open>Properties\<close>

subsection \<open>The prompt template\<close>

lemma is_space_simps:
  "is_space (CHR '' '')" "is_space (CHR 0x0A)" "\<not> is_space (CHR '':'')"
  by (simp_all add: is_space_def)

text \<open>
  Claim C8. \<^verbatim>\<open>generate_prompt\<close> is a total function of its two arguments that fills one
  fixed template: there are three fixed pieces of text such that every prompt is the first
  piece, the context, the second piece, the question and the third piece, in this order,
  for all strings, the empty ones included. The first piece carries the label
  \<^verbatim>\<open>Context:\<close>, the second the label \<^verbatim>\<open>Question:\<close>, the third the cue \<^verbatim>\<open>Answer:\<close>,
  and nothing but white space follows the cue: the prompt with its trailing white space
  removed ends in \<^verbatim>\<open>Answer:\<close>. Nothing is cut: the prompt is 108 characters longer than
  its two arguments together.
\<close>

theorem generate_prompt_template:
  "\<exists>pre mid post.
     (\<forall>question context.
        generate_prompt question context = pre @ context @ mid @ question @ post
        \<and> length (generate_prompt question context) = length question + length context + 108
        \<and> suffix ''Answer:'' (rev (dropWhile is_space (rev (generate_prompt question context)))))
     \<and> sublist ''Context:'' pre \<and> sublist ''Question:'' mid \<and> sublist ''Answer:'' post"
proof -
  let ?pre = "''Based on the context, answer the following question:'' @ newline @ ''    Context:'' @ newline @ ''    ''"
  let ?mid = "newline @ newline @ ''    Question:'' @ newline @ ''    ''"
  let ?post = "newline @ newline @ ''    Answer:'' @ newline @ ''    ''"
  have eq: "generate_prompt q c = ?pre @ c @ ?mid @ q @ ?post" for q c
    by (simp add: generate_prompt_def)
  have len: "length (generate_prompt q c) = length q + length c + 108" for q c
    by (simp add: generate_prompt_def newline_def)
  have cue: "suffix ''Answer:'' (rev (dropWhile is_space (rev (generate_prompt q c))))" for q c
    by (simp add: generate_prompt_def newline_def is_space_simps suffix_def)
  have p1: "sublist ''Context:'' ?pre"
    unfolding sublist_def
    by (rule exI [of _ "''Based on the context, answer the following question:'' @ newline @ ''    ''"],
        rule exI [of _ "newline @ ''    ''"]) simp
  have p2: "sublist ''Question:'' ?mid"
    unfolding sublist_def
    by (rule exI [of _ "newline @ newline @ ''    ''"], rule exI [of _ "newline @ ''    ''"]) simp
  have p3: "sublist ''Answer:'' ?post"
    unfolding sublist_def
    by (rule exI [of _ "newline @ newline @ ''    ''"], rule exI [of _ "newline @ ''    ''"]) simp
  show ?thesis
    apply (rule exI [of _ ?pre], rule exI [of _ ?mid], rule exI [of _ ?post])
    using eq len cue p1 p2 p3 by blast
qed

subsection \<open>The result table\<close>

lemma add_rows_names:
  "length (field_names t) = 2 \<Longrightarrow>
   add_rows ps t = Inr (t\<lparr>rows := rows t @ map (\<lambda>(p, g). [p, g]) ps\<rparr>)"
proof (induction ps arbitrary: t)
  case Nil
  then show ?case by simp
next
  case (Cons a ps)
  obtain p g where a: "a = (p, g)" by (cases a)
  have names: "field_names t \<noteq> []" using Cons.prems by auto
  have step: "add_row t [p, g] = Inr (t\<lparr>rows := rows t @ [[p, g]]\<rparr>)"
    using Cons.prems names by (simp add: add_row_def)
  have "length (field_names (t\<lparr>rows := rows t @ [[p, g]]\<rparr>)) = 2"
    using Cons.prems by simp
  from Cons.IH [OF this] show ?case
    by (simp add: a step)
qed

lemma print_result_table_eq:
  "print_result_table ps gs =
     Inr [Blank, Printed \<lparr>field_names = [''Predicted'', ''Ground Truth''],
                          rows = map (\<lambda>(p, g). [p, g]) (zip ps gs)\<rparr>]"
  by (simp add: print_result_table_def PrettyTable_def add_rows_names)

text \<open>
  Claim C9. For every list of prediction records, handed to \<^verbatim>\<open>print_result_table\<close> as the
  list of their predicted answers and the list of their ground truths, the function prints
  an empty line and then one table; the table's header is \<^verbatim>\<open>Predicted\<close>,
  \<^verbatim>\<open>Ground Truth\<close>, and its rows are the records, one row for each, in the order of the list,
  the two cells of a row being the two fields of the record unchanged. This is the table as
  the function hands it to the library; laying it out as text is the library's work.
\<close>

theorem print_result_table_records:
  "print_result_table (map fst records) (map snd records) =
     Inr [Blank, Printed \<lparr>field_names = [''Predicted'', ''Ground Truth''],
                          rows = map (\<lambda>r. [fst r, snd r]) records\<rparr>]"
  by (simp add: print_result_table_eq zip_map_fst_snd case_prod_unfold)

text \<open>
  Claim C10. \<^verbatim>\<open>print_result_table\<close> takes two lists. Whatever their lengths, it raises
  nothing and prints a table whose number of rows is the smaller of the two lengths; row
  \<open>i\<close> holds the \<open>i\<close>-th entry of each list, so the entries of the longer list beyond the
  length of the shorter one appear nowhere.
\<close>

theorem print_result_table_unequal:
  "\<exists>table. print_result_table predicted_answers correct_answers = Inr [Blank, Printed table]
     \<and> length (rows table) = min (length predicted_answers) (length correct_answers)
     \<and> rows table = map (\<lambda>i. [predicted_answers ! i, correct_answers ! i])
                       [0..<min (length predicted_answers) (length correct_answers)]"
proof -
  have "map (\<lambda>(p, g). [p, g]) (zip predicted_answers correct_answers) =
        map (\<lambda>i. [predicted_answers ! i, correct_answers ! i])
          [0..<min (length predicted_answers) (length correct_answers)]"
    by (rule nth_equalityI) simp_all
  then show ?thesis
    by (simp add: print_result_table_eq)
qed

subsection \<open>Sampling without replacement\<close>

lemma randbelow_less: "0 < n \<Longrightarrow> fst (randbelow n g) < n"
  by (simp add: randbelow_def)

lemma randbelow_pos:
  "Suc k \<le> length xs \<Longrightarrow> randbelow (length xs) g = (j, g') \<Longrightarrow> j < length xs"
  using randbelow_less [of "length xs" g] by (cases xs) simp_all

lemma sample_pool_length: "length (fst (sample_pool xs k g)) = k"
proof (induction k arbitrary: xs g)
  case 0
  then show ?case by simp
next
  case (Suc k)
  obtain j g' where rb: "randbelow (length xs) g = (j, g')" by (cases "randbelow (length xs) g")
  obtain r g'' where sp: "sample_pool (butlast (xs[j := last xs])) k g' = (r, g'')"
    by (cases "sample_pool (butlast (xs[j := last xs])) k g'")
  from Suc.IH [of "butlast (xs[j := last xs])" g'] have "length r = k"
    by (simp add: sp)
  then show ?case by (simp add: rb sp)
qed

lemma mset_take_out:
  assumes "j < length xs"
  shows "mset (butlast (xs[j := last xs])) = mset xs - {#xs ! j#}"
proof -
  from assms have ne: "xs \<noteq> []" by auto
  let ?ys = "xs[j := last xs]"
  have ys_ne: "?ys \<noteq> []" using ne by simp
  have last_ys: "last ?ys = last xs"
    using assms ne by (simp add: last_conv_nth nth_list_update)
  have "mset ?ys = add_mset (last ?ys) (mset (butlast ?ys))"
  proof -
    have "mset ?ys = mset (butlast ?ys @ [last ?ys])"
      using ys_ne by simp
    then show ?thesis by simp
  qed
  then have "mset (butlast ?ys) = mset ?ys - {#last xs#}"
    by (simp add: last_ys)
  also have "mset ?ys = add_mset (last xs) (mset xs - {#xs ! j#})"
    using assms by (rule mset_update)
  finally show ?thesis by simp
qed

lemma sample_pool_mset:
  "k \<le> length xs \<Longrightarrow> mset (fst (sample_pool xs k g)) \<subseteq># mset xs"
proof (induction k arbitrary: xs g)
  case 0
  then show ?case by simp
next
  case (Suc k)
  obtain j g' where rb: "randbelow (length xs) g = (j, g')" by (cases "randbelow (length xs) g")
  have j: "j < length xs"
    using Suc.prems rb by (rule randbelow_pos)
  let ?xs' = "butlast (xs[j := last xs])"
  have "k \<le> length ?xs'" using Suc.prems by simp
  then have "mset (fst (sample_pool ?xs' k g')) \<subseteq># mset ?xs'" by (rule Suc.IH)
  then have "mset (fst (sample_pool ?xs' k g')) \<subseteq># mset xs - {#xs ! j#}"
    by (simp add: mset_take_out [OF j])
  then have "add_mset (xs ! j) (mset (fst (sample_pool ?xs' k g'))) \<subseteq># mset xs"
    using j by (simp add: insert_subset_eq_iff nth_mem_mset)
  moreover obtain r g'' where "sample_pool ?xs' k g' = (r, g'')"
    by (cases "sample_pool ?xs' k g'")
  ultimately show ?case
    by (simp add: rb)
qed





subsection \<open>The exemplar messages\<close>

lemma join_alt:
  "join sep xs =
     (if xs = [] then [] else concat (map (\<lambda>h. h @ sep) (butlast xs)) @ last xs)"
  by (induction sep xs rule: join.induct) simp_all

lemma shots_loop_Inr:
  "shots_loop exs acc = Inr msgs \<Longrightarrow>
     msgs = acc @ concat (map shot_pair exs) \<and> (\<forall>e\<in>set exs. answers e \<noteq> [])"
proof (induction exs arbitrary: acc)
  case Nil
  then show ?case by simp
next
  case (Cons e exs)
  from Cons.prems obtain a as where a: "answers e = a # as"
    by (cases "answers e") simp_all
  from Cons.prems have
    "shots_loop exs (acc @ shot_pair e) = Inr msgs"
    by (simp add: a shot_pair_def)
  from Cons.IH [OF this] show ?case
    by (simp add: a)
qed

lemma shots_loop_ok:
  "\<forall>e\<in>set exs. answers e \<noteq> [] \<Longrightarrow> shots_loop exs acc = Inr (acc @ concat (map shot_pair exs))"
proof (induction exs arbitrary: acc)
  case Nil
  then show ?case by simp
next
  case (Cons e exs)
  from Cons.prems obtain a as where a: "answers e = a # as"
    by (cases "answers e") simp_all
  from Cons.prems have "\<forall>e\<in>set exs. answers e \<noteq> []" by simp
  from Cons.IH [OF this, of "acc @ shot_pair e"] show ?case
    by (simp add: a shot_pair_def)
qed

lemma length_pairs: "length (concat (map shot_pair exs)) = 2 * length exs"
  by (induction exs) (simp_all add: shot_pair_def)

lemma nth_pairs:
  "j < length exs \<Longrightarrow>
     concat (map shot_pair exs) ! (2 * j) = shot_pair (exs ! j) ! 0 \<and>
     concat (map shot_pair exs) ! (2 * j + 1) = shot_pair (exs ! j) ! 1"
proof (induction exs arbitrary: j)
  case Nil
  then show ?case by simp
next
  case (Cons e exs)
  show ?case
  proof (cases j)
    case 0
    then show ?thesis by (simp add: shot_pair_def)
  next
    case (Suc i)
    with Cons.prems have "i < length exs" by simp
    from Cons.IH [OF this] have
      "concat (map shot_pair exs) ! (2 * i) = shot_pair (exs ! i) ! 0"
      "concat (map shot_pair exs) ! Suc (2 * i) = shot_pair (exs ! i) ! 1"
      by simp_all
    moreover have "length (shot_pair e) = 2" by (simp add: shot_pair_def)
    ultimately show ?thesis
      by (simp add: Suc nth_append)
  qed
qed

lemma generate_shots_Inr:
  assumes "generate_shots pool k g = (Inr msgs, g')"
  shows "0 \<le> k" and "k \<le> int (length pool)"
    and "random_sample pool k g = (Inr (fst (sample_pool pool (nat k) g)), g')"
    and "msgs = concat (map shot_pair (fst (sample_pool pool (nat k) g)))"
    and "\<forall>e\<in>set (fst (sample_pool pool (nat k) g)). answers e \<noteq> []"
proof -
  from assms have rng: "0 \<le> k \<and> k \<le> int (length pool)"
    by (auto simp: generate_shots_def random_sample_def split: if_splits)
  then show "0 \<le> k" and "k \<le> int (length pool)" by simp_all
  obtain exs g1 where sp: "sample_pool pool (nat k) g = (exs, g1)"
    by (cases "sample_pool pool (nat k) g")
  from assms rng have "shots_loop exs [] = Inr msgs" and g1: "g1 = g'"
    by (simp_all add: generate_shots_def random_sample_def sp)
  from shots_loop_Inr [OF this(1)] 
  show "msgs = concat (map shot_pair (fst (sample_pool pool (nat k) g)))"
    and "\<forall>e\<in>set (fst (sample_pool pool (nat k) g)). answers e \<noteq> []"
    by (simp_all add: sp)
  show "random_sample pool k g = (Inr (fst (sample_pool pool (nat k) g)), g')"
    using rng by (simp add: random_sample_def sp g1)
qed

lemma generate_shots_ok:
  assumes "0 \<le> k" and "k \<le> int (length pool)" and "\<forall>e\<in>set pool. answers e \<noteq> []"
  shows "generate_shots pool k g =
           (Inr (concat (map shot_pair (fst (sample_pool pool (nat k) g)))),
            snd (sample_pool pool (nat k) g))"
proof -
  obtain exs g1 where sp: "sample_pool pool (nat k) g = (exs, g1)"
    by (cases "sample_pool pool (nat k) g")
  have "nat k \<le> length pool" using assms by simp
  from sample_pool_mset [OF this, of g] have "set exs \<subseteq> set pool"
    by (metis fst_conv set_mset_mono set_mset_mset sp)
  with assms(3) have "\<forall>e\<in>set exs. answers e \<noteq> []" by blast
  from shots_loop_ok [OF this, of "[]"] show ?thesis
    using assms(1,2) by (simp add: generate_shots_def random_sample_def sp)
qed

text \<open>
  Claim C4. For every pool and every \<open>k\<close> greater than the size of the pool,
  \<^verbatim>\<open>generate_shots\<close> raises \<^verbatim>\<open>ValueError\<close>, the error of \<^verbatim>\<open>random.sample\<close> for a sample
  larger than the population; it returns no message list and draws nothing from the
  generator.
\<close>

theorem generate_shots_too_many:
  "int (length pool) < k \<Longrightarrow> generate_shots pool k g = (Inl ValueError, g)"
  by (simp add: generate_shots_def random_sample_def)

theorem generate_shots_too_many_witness:
  "int (length pool_AB) < 5 \<and> generate_shots pool_AB 5 tape = (Inl ValueError, tape)"
proof -
  have h: "int (length pool_AB) < 5" by (simp add: pool_AB_def)
  from generate_shots_too_many [OF h] h show ?thesis by simp
qed






text \<open>
  Claim C6. Whenever \<^verbatim>\<open>generate_shots\<close> returns, it has rendered every sampled instance, in
  the order drawn, as two messages: a user message whose content is \<^verbatim>\<open>generate_prompt\<close>
  of the instance's question and of its context, the context being the empty string for
  an instance without hints and otherwise every hint but the last followed by a newline,
  then the last hint, in the order of the hint list; and next to it an assistant message
  whose content is the instance's first candidate answer, unchanged.
\<close>

theorem generate_shots_rendering:
  assumes "generate_shots pool k g = (Inr msgs, g')"
  shows "\<exists>shots. random_sample pool k g = (Inr shots, g') \<and> length shots = nat k \<and>
           length msgs = 2 * length shots \<and>
           (\<forall>j<length shots.
              answers (shots ! j) \<noteq> [] \<and>
              msgs ! (2 * j) =
                \<lparr>role = ''user'',
                 content = generate_prompt (question (shots ! j))
                   (if hints (shots ! j) = [] then []
                    else concat (map (\<lambda>h. h @ newline) (butlast (hints (shots ! j))))
                         @ last (hints (shots ! j)))\<rparr> \<and>
              msgs ! (2 * j + 1) =
                \<lparr>role = ''assistant'', content = hd (answers (shots ! j))\<rparr>)"
proof -
  let ?shots = "fst (sample_pool pool (nat k) g)"
  note gs = generate_shots_Inr [OF assms]
  have "answers (?shots ! j) \<noteq> [] \<and>
        msgs ! (2 * j) = shot_pair (?shots ! j) ! 0 \<and>
        msgs ! (2 * j + 1) = shot_pair (?shots ! j) ! 1" if "j < length ?shots" for j
    using that gs(5) nth_pairs [OF that] by (simp add: gs(4))
  then show ?thesis
    apply (intro exI [of _ ?shots])
    using gs(3) by (simp add: gs(4) length_pairs sample_pool_length shot_pair_def join_alt)
qed

theorem generate_shots_rendering_witness:
  "generate_shots pool_AB 1 tape =
     (Inr [\<lparr>role = ''user'',
            content = generate_prompt ''Year WWII ended?'' []\<rparr>,
           \<lparr>role = ''assistant'', content = ''1945''\<rparr>], \<lambda>i. tape (Suc i)) \<and>
   (\<exists>shots. random_sample pool_AB 1 tape = (Inr shots, \<lambda>i. tape (Suc i)) \<and> length shots = nat 1 \<and>
      hints (shots ! 0) = [] \<and> hd (answers (shots ! 0)) = ''1945'')"
proof -
  have h: "generate_shots pool_AB 1 tape =
     (Inr [\<lparr>role = ''user'',
            content = generate_prompt ''Year WWII ended?'' []\<rparr>,
           \<lparr>role = ''assistant'', content = ''1945''\<rparr>], \<lambda>i. tape (Suc i))"
    by (simp add: generate_shots_def random_sample_def randbelow_def pool_AB_def instance_A_def
          instance_B_def tape_def)
  from generate_shots_rendering [OF h] obtain shots where
    s: "random_sample pool_AB 1 tape = (Inr shots, \<lambda>i. tape (Suc i))" "length shots = nat 1"
       "\<forall>j<length shots. answers (shots ! j) \<noteq> [] \<and>
              [\<lparr>role = ''user'', content = generate_prompt ''Year WWII ended?'' []\<rparr>,
               \<lparr>role = ''assistant'', content = ''1945''\<rparr>] ! (2 * j) =
                \<lparr>role = ''user'',
                 content = generate_prompt (question (shots ! j))
                   (if hints (shots ! j) = [] then []
                    else concat (map (\<lambda>h. h @ newline) (butlast (hints (shots ! j))))
                         @ last (hints (shots ! j)))\<rparr> \<and>
              [\<lparr>role = ''user'', content = generate_prompt ''Year WWII ended?'' []\<rparr>,
               \<lparr>role = ''assistant'', content = ''1945''\<rparr>] ! (2 * j + 1) =
                \<lparr>role = ''assistant'', content = hd (answers (shots ! j))\<rparr>"
    by blast
  have sh: "shots = [instance_B]"
    using s(1) by (simp add: random_sample_def randbelow_def pool_AB_def tape_def)
  show ?thesis
    using h s(1,2) by (auto simp: sh instance_B_def)
qed

subsection \<open>The main loop\<close>

lemma rag_body_cases:
  assumes "rag_body k ep pool acc inst w = (res, w')"
  shows "(calls w' = calls w \<and> isl res) \<or>
         (\<exists>exs. length exs = nat k \<and> 0 \<le> k \<and> mset exs \<subseteq># mset pool \<and>
            answers inst \<noteq> [] \<and>
            calls w' = calls w @ [target_request exs inst] \<and>
            (isl res \<or>
             (\<exists>text. res = Inr (fst acc @ [strip text], snd acc @ [hd (answers inst)]))))"
proof -
  obtain r g where gs: "generate_shots pool k (gen w) = (r, g)"
    by (cases "generate_shots pool k (gen w)")
  show ?thesis
  proof (cases r)
    case (Inl e)
    with assms gs show ?thesis
      by (auto simp: rag_body_def)
  next
    case (Inr msgs)
    let ?exs = "fst (sample_pool pool (nat k) (gen w))"
    from gs Inr have gs': "generate_shots pool k (gen w) = (Inr msgs, g)" by simp
    note f = generate_shots_Inr [OF gs']
    have k: "nat k \<le> length pool" using f(1,2) by linarith
    have sub: "mset ?exs \<subseteq># mset pool" using k by (rule sample_pool_mset)
    have len: "length ?exs = nat k" by (rule sample_pool_length)
    show ?thesis
    proof (cases "answers inst")
      case Nil
      with assms gs' show ?thesis
        by (auto simp: rag_body_def)
    next
      case (Cons a as)
      let ?r = "target_request ?exs inst"
      let ?w1 = "w\<lparr>gen := g\<rparr>"
      have body: "rag_body k ep pool acc inst w =
        (case ep (length (calls w)) ?r of
           Inl e \<Rightarrow> (Inl e, ?w1\<lparr>calls := calls w @ [?r]\<rparr>)
         | Inr answer \<Rightarrow>
             (case choices answer of
                [] \<Rightarrow> (Inl IndexError, ?w1\<lparr>calls := calls w @ [?r]\<rparr>)
              | None # _ \<Rightarrow> (Inl AttributeError, ?w1\<lparr>calls := calls w @ [?r]\<rparr>)
              | Some text # _ \<Rightarrow>
                  (Inr (fst acc @ [strip text], snd acc @ [a]), ?w1\<lparr>calls := calls w @ [?r]\<rparr>)))"
        by (simp add: rag_body_def gs' Cons create_def target_request_def f(4) Let_def
              split: sum.splits list.splits option.splits)
      have "calls w' = calls w @ [?r] \<and>
            (isl res \<or> (\<exists>text. res = Inr (fst acc @ [strip text], snd acc @ [a])))"
        using assms unfolding body
        by (auto split: sum.splits list.splits option.splits)
      with len f(1) sub Cons show ?thesis
        by (intro disjI2 exI [of _ ?exs]) simp
    qed
  qed
qed

lemma rag_loop_calls:
  "rag_loop k ep pool insts acc w = (res, w') \<Longrightarrow>
     \<exists>rs. calls w' = calls w @ rs \<and> length rs \<le> length insts \<and>
       (\<forall>i<length rs. \<exists>exs. length exs = nat k \<and> mset exs \<subseteq># mset pool \<and>
          rs ! i = target_request exs (insts ! i))"
proof (induction insts arbitrary: acc w)
  case Nil
  then show ?case by simp
next
  case (Cons inst insts)
  obtain r1 w1 where b: "rag_body k ep pool acc inst w = (r1, w1)"
    by (cases "rag_body k ep pool acc inst w")
  from rag_body_cases [OF b] consider
    (quiet) "calls w1 = calls w" "isl r1"
  | (sent) exs where "length exs = nat k" "mset exs \<subseteq># mset pool"
      "calls w1 = calls w @ [target_request exs inst]"
    by blast
  then show ?case
  proof cases
    case quiet
    then obtain e where "r1 = Inl e" by (cases r1) simp_all
    with Cons.prems b quiet have "calls w' = calls w @ []" by simp
    then show ?thesis by (intro exI [of _ "[]"]) simp
  next
    case sent
    show ?thesis
    proof (cases r1)
      case (Inl e)
      with Cons.prems b sent have "calls w' = calls w @ [target_request exs inst]" by simp
      with sent show ?thesis
        by (intro exI [of _ "[target_request exs inst]"]) auto
    next
      case (Inr acc')
      with Cons.prems b have "rag_loop k ep pool insts acc' w1 = (res, w')" by simp
      from Cons.IH [OF this] obtain rs where rs:
        "calls w' = calls w1 @ rs" "length rs \<le> length insts"
        "\<forall>i<length rs. \<exists>exs. length exs = nat k \<and> mset exs \<subseteq># mset pool \<and>
            rs ! i = target_request exs (insts ! i)"
        by blast
      have "\<exists>exs'. length exs' = nat k \<and> mset exs' \<subseteq># mset pool \<and>
              (target_request exs inst # rs) ! i = target_request exs' ((inst # insts) ! i)"
        if "i < length (target_request exs inst # rs)" for i
      proof (cases i)
        case 0
        with sent show ?thesis by auto
      next
        case (Suc j)
        with that rs(3) show ?thesis by simp
      qed
      with rs(1,2) sent(3) show ?thesis
        by (intro exI [of _ "target_request exs inst # rs"]) simp
    qed
  qed
qed

lemma rag_loop_Inr:
  "rag_loop k ep pool insts acc w = (Inr (ps, ts), w') \<Longrightarrow>
     length ps = length (fst acc) + length insts \<and>
     ts = snd acc @ map (\<lambda>i. hd (answers i)) insts \<and>
     (\<forall>i\<in>set insts. answers i \<noteq> []) \<and>
     length (calls w') = length (calls w) + length insts"
proof (induction insts arbitrary: acc w)
  case Nil
  then show ?case by auto
next
  case (Cons inst insts)
  obtain r1 w1 where b: "rag_body k ep pool acc inst w = (r1, w1)"
    by (cases "rag_body k ep pool acc inst w")
  from Cons.prems b obtain acc' where r1: "r1 = Inr acc'"
    by (cases r1) simp_all
  with Cons.prems b have loop: "rag_loop k ep pool insts acc' w1 = (Inr (ps, ts), w')" by simp
  from rag_body_cases [OF b] r1 obtain exs reply where
    s: "answers inst \<noteq> []" "calls w1 = calls w @ [target_request exs inst]"
       "acc' = (fst acc @ [strip reply], snd acc @ [hd (answers inst)])"
    by auto
  from Cons.IH [OF loop] s show ?case by simp
qed

lemma rag_loop_append:
  "rag_loop k ep pool (pre @ post) acc w =
     (case rag_loop k ep pool pre acc w of
        (Inl e, w') \<Rightarrow> (Inl e, w')
      | (Inr acc', w') \<Rightarrow> rag_loop k ep pool post acc' w')"
  by (induction pre arbitrary: acc w) (simp_all split: prod.splits sum.splits)

lemma rag_body_run:
  assumes "0 \<le> k" and "k \<le> int (length pool)" and "\<forall>e\<in>set pool. answers e \<noteq> []"
    and "answers inst \<noteq> []"
  shows "rag_body k ep pool acc inst w =
     (let exs = fst (sample_pool pool (nat k) (gen w));
          r = target_request exs inst;
          w2 = w\<lparr>gen := snd (sample_pool pool (nat k) (gen w)), calls := calls w @ [r]\<rparr>
      in case ep (length (calls w)) r of
           Inl e \<Rightarrow> (Inl e, w2)
         | Inr answer \<Rightarrow>
             (case choices answer of
                [] \<Rightarrow> (Inl IndexError, w2)
              | None # _ \<Rightarrow> (Inl AttributeError, w2)
              | Some t # _ \<Rightarrow> (Inr (fst acc @ [strip t], snd acc @ [hd (answers inst)]), w2)))"
proof -
  from assms(4) obtain a as where a: "answers inst = a # as"
    by (cases "answers inst") simp_all
  show ?thesis
    by (simp add: rag_body_def generate_shots_ok [OF assms(1-3)] a create_def
          target_request_def Let_def split: sum.splits list.splits option.splits)
qed

lemma rag_loop_const:
  assumes ep: "\<And>n r. ep n r = Inr \<lparr>choices = [Some t]\<rparr>"
    and k: "0 \<le> k" "k \<le> int (length pool)" and pool: "\<forall>e\<in>set pool. answers e \<noteq> []"
  shows "set insts \<subseteq> set pool \<Longrightarrow>
     fst (rag_loop k ep pool insts acc w) =
       Inr (fst acc @ map (\<lambda>_. strip t) insts, snd acc @ map (\<lambda>i. hd (answers i)) insts)"
proof (induction insts arbitrary: acc w)
  case Nil
  then show ?case by simp
next
  case (Cons inst insts)
  then have inst: "answers inst \<noteq> []" and rest: "set insts \<subseteq> set pool"
    using pool by auto
  have "rag_body k ep pool acc inst w =
          (Inr (fst acc @ [strip t], snd acc @ [hd (answers inst)]),
           w\<lparr>gen := snd (sample_pool pool (nat k) (gen w)),
             calls := calls w @ [target_request (fst (sample_pool pool (nat k) (gen w))) inst]\<rparr>)"
    unfolding rag_body_run [OF k pool inst] Let_def ep by simp
  then show ?case
    by (simp add: Cons.IH [OF rest])
qed

lemma pool_five_ok:
  "(0::int) \<le> 5" "5 \<le> int (length pool_five)" "\<forall>e\<in>set pool_five. answers e \<noteq> []"
  by (simp_all add: pool_five_def instance_A_def instance_B_def instance_C_def instance_D_def
        instance_E_def)

lemma strip_Paris: "strip '' Paris '' = ''Paris''"
  by (simp add: strip_def is_space_def)

lemma roles_pairs:
  "map role (concat (map shot_pair exs)) = concat (replicate (length exs) [''user'', ''assistant''])"
  by (induction exs) (simp_all add: shot_pair_def)

lemma rag_small_pool:
  assumes "pool \<noteq> []" and "int (length pool) < 5"
  shows "rag ep pool w = (Inl ValueError, w)"
proof -
  from assms(1) obtain inst rest where p: "pool = inst # rest" by (cases pool) simp_all
  have "generate_shots pool 5 (gen w) = (Inl ValueError, gen w)"
    using assms(2) by (simp add: generate_shots_def random_sample_def)
  then have "rag_body 5 ep pool ([], []) inst w = (Inl ValueError, w)"
    by (simp add: rag_body_def)
  then have "rag_loop 5 ep pool (inst # rest) ([], []) w = (Inl ValueError, w)"
    by simp
  then show ?thesis
    by (simp add: rag_def rag_shots_def p)
qed

lemma rag_pool_five_run: "fst (rag endpoint_ok pool_five world0) =
   Inr ([''Paris'', ''Paris'', ''Paris'', ''Paris'', ''Paris''],
        [''Paris'', ''1945'', ''Jupiter'', ''Water'', ''4''])"
proof -
  have "fst (rag_loop 5 endpoint_ok pool_five pool_five ([], []) world0) =
       Inr (fst ([], []) @ map (\<lambda>_. strip '' Paris '') pool_five,
            snd ([], []) @ map (\<lambda>i. hd (answers i)) pool_five)"
    using rag_loop_const [where ep = endpoint_ok and t = "'' Paris ''" and k = 5
        and pool = pool_five and insts = pool_five and acc = "([], [])" and w = world0]
      pool_five_ok
    by (simp add: endpoint_ok_def)
  then show ?thesis
    by (simp add: rag_def rag_shots_def strip_Paris pool_five_def instance_A_def instance_B_def
          instance_C_def instance_D_def instance_E_def)
qed

text \<open>
  Claim C1. If \<^verbatim>\<open>rag\<close> returns, that is, no step failed for any instance of the pool, then
  both lists it returns have the length of the pool, so that paired up they are one record
  for each instance; every instance of the pool has a candidate answer, and the ground
  truth of record \<open>i\<close> is the first candidate answer of instance \<open>i\<close> of the pool, in the
  pool's order. One completion call was made for each instance.
\<close>

theorem rag_order_correspondence:
  assumes "fst (rag ep pool w) = Inr (predicted_answers, ground_truths)"
  shows "length predicted_answers = length pool \<and> length ground_truths = length pool \<and>
         length (zip predicted_answers ground_truths) = length pool \<and>
         (\<forall>i<length pool.
            answers (pool ! i) \<noteq> [] \<and>
            ground_truths ! i = hd (answers (pool ! i)) \<and>
            snd (zip predicted_answers ground_truths ! i) = hd (answers (pool ! i))) \<and>
         length (calls (snd (rag ep pool w))) = length (calls w) + length pool"
proof -
  from assms have
    "rag_loop 5 ep pool pool ([], []) w = (Inr (predicted_answers, ground_truths), snd (rag ep pool w))"
    by (simp add: rag_def rag_shots_def prod_eq_iff)
  from rag_loop_Inr [OF this] have
    f: "length predicted_answers = length pool"
       "ground_truths = map (\<lambda>i. hd (answers i)) pool"
       "\<forall>i\<in>set pool. answers i \<noteq> []"
       "length (calls (snd (rag ep pool w))) = length (calls w) + length pool"
    by simp_all
  then show ?thesis by simp
qed

theorem rag_order_correspondence_witness:
  "fst (rag endpoint_ok pool_five world0) =
     Inr ([''Paris'', ''Paris'', ''Paris'', ''Paris'', ''Paris''],
          [''Paris'', ''1945'', ''Jupiter'', ''Water'', ''4'']) \<and>
   length [''Paris'', ''1945'', ''Jupiter'', ''Water'', ''4''] = length pool_five \<and>
   [''Paris'', ''1945'', ''Jupiter'', ''Water'', ''4''] ! 2 = hd (answers (pool_five ! 2)) \<and>
   length (calls (snd (rag endpoint_ok pool_five world0))) = 5"
proof -
  note h = rag_pool_five_run
  from rag_order_correspondence [OF h] h show ?thesis
    by (simp add: pool_five_def world0_def instance_C_def)
qed

text \<open>
  Claim C2. Whatever happens in a run of \<^verbatim>\<open>rag\<close>, finished or aborted, the requests it
  has sent to the endpoint are one for each of the first instances of the pool, in order,
  and the message list of the \<open>i\<close>-th is: the system message first; then the user message
  and the assistant message of each of five exemplars taken from the pool, user before
  assistant; then, last, the user message built from the question and the hints of
  instance \<open>i\<close>. Read by role, it is \<^verbatim>\<open>system\<close>, five times \<^verbatim>\<open>user\<close>, \<^verbatim>\<open>assistant\<close>, and
  a final \<^verbatim>\<open>user\<close>.
\<close>

theorem rag_message_order:
  "\<exists>rs. calls (snd (rag ep pool w)) = calls w @ rs \<and> length rs \<le> length pool \<and>
     (\<forall>i<length rs.
        \<exists>exs. length exs = 5 \<and> set exs \<subseteq> set pool \<and>
          messages (rs ! i) =
            \<lparr>role = ''system'', content = system_prompt\<rparr> #
            concat (map (\<lambda>e.
              [\<lparr>role = ''user'',
                content = generate_prompt (question e) (join newline (hints e))\<rparr>,
               \<lparr>role = ''assistant'', content = hd (answers e)\<rparr>]) exs) @
            [\<lparr>role = ''user'',
              content = generate_prompt (question (pool ! i)) (join newline (hints (pool ! i)))\<rparr>] \<and>
          map role (messages (rs ! i)) =
            ''system'' # concat (replicate 5 [''user'', ''assistant'']) @ [''user''])"
proof -
  have "rag_loop 5 ep pool pool ([], []) w = (fst (rag ep pool w), snd (rag ep pool w))"
    by (simp add: rag_def rag_shots_def)
  from rag_loop_calls [OF this] obtain rs where rs:
    "calls (snd (rag ep pool w)) = calls w @ rs" "length rs \<le> length pool"
    "\<forall>i<length rs. \<exists>exs. length exs = nat 5 \<and> mset exs \<subseteq># mset pool \<and>
        rs ! i = target_request exs (pool ! i)"
    by blast
  have "\<exists>exs. length exs = 5 \<and> set exs \<subseteq> set pool \<and>
          messages (rs ! i) =
            \<lparr>role = ''system'', content = system_prompt\<rparr> #
            concat (map (\<lambda>e.
              [\<lparr>role = ''user'',
                content = generate_prompt (question e) (join newline (hints e))\<rparr>,
               \<lparr>role = ''assistant'', content = hd (answers e)\<rparr>]) exs) @
            [\<lparr>role = ''user'',
              content = generate_prompt (question (pool ! i)) (join newline (hints (pool ! i)))\<rparr>] \<and>
          map role (messages (rs ! i)) =
            ''system'' # concat (replicate 5 [''user'', ''assistant'']) @ [''user'']"
    if "i < length rs" for i
  proof -
    from rs(3) that obtain exs where e: "length exs = 5" "mset exs \<subseteq># mset pool"
      "rs ! i = target_request exs (pool ! i)"
      by auto
    from e(2) have sub: "set exs \<subseteq> set pool"
      by (metis set_mset_mono set_mset_mset)
    have shots: "map shot_pair exs = map (\<lambda>e.
              [\<lparr>role = ''user'',
                content = generate_prompt (question e) (join newline (hints e))\<rparr>,
               \<lparr>role = ''assistant'', content = hd (answers e)\<rparr>]) exs"
      by (simp add: shot_pair_def)
    have roles: "map role (messages (rs ! i)) =
            ''system'' # concat (replicate 5 [''user'', ''assistant'']) @ [''user'']"
      unfolding e(3) target_request_def
      by (simp add: roles_pairs e(1) del: replicate.simps replicate_Suc)
    show ?thesis
      apply (rule exI [of _ exs])
      using e(1) sub roles by (simp add: e(3) target_request_def shots)
  qed
  with rs(1,2) show ?thesis by blast
qed

theorem rag_message_order_witness:
  "\<exists>rs. calls (snd (rag endpoint_ok pool_five world0)) = calls world0 @ rs \<and> 0 < length rs \<and>
     (\<exists>exs. length exs = 5 \<and> set exs \<subseteq> set pool_five \<and>
          messages (rs ! 0) =
            \<lparr>role = ''system'', content = system_prompt\<rparr> #
            concat (map (\<lambda>e.
              [\<lparr>role = ''user'',
                content = generate_prompt (question e) (join newline (hints e))\<rparr>,
               \<lparr>role = ''assistant'', content = hd (answers e)\<rparr>]) exs) @
            [\<lparr>role = ''user'',
              content = generate_prompt (question (pool_five ! 0))
                          (join newline (hints (pool_five ! 0)))\<rparr>] \<and>
          map role (messages (rs ! 0)) =
            ''system'' # concat (replicate 5 [''user'', ''assistant'']) @ [''user''])"
proof -
  from rag_message_order [of endpoint_ok pool_five world0] obtain rs where rs:
    "calls (snd (rag endpoint_ok pool_five world0)) = calls world0 @ rs"
    "\<forall>i<length rs.
        \<exists>exs. length exs = 5 \<and> set exs \<subseteq> set pool_five \<and>
          messages (rs ! i) =
            \<lparr>role = ''system'', content = system_prompt\<rparr> #
            concat (map (\<lambda>e.
              [\<lparr>role = ''user'',
                content = generate_prompt (question e) (join newline (hints e))\<rparr>,
               \<lparr>role = ''assistant'', content = hd (answers e)\<rparr>]) exs) @
            [\<lparr>role = ''user'',
              content = generate_prompt (question (pool_five ! i))
                          (join newline (hints (pool_five ! i)))\<rparr>] \<and>
          map role (messages (rs ! i)) =
            ''system'' # concat (replicate 5 [''user'', ''assistant'']) @ [''user'']"
    by blast
  have "rag_loop 5 endpoint_ok pool_five pool_five ([], []) world0 =
          (Inr ([''Paris'', ''Paris'', ''Paris'', ''Paris'', ''Paris''],
                [''Paris'', ''1945'', ''Jupiter'', ''Water'', ''4'']),
           snd (rag endpoint_ok pool_five world0))"
    using rag_pool_five_run by (simp add: rag_def rag_shots_def prod_eq_iff)
  from rag_loop_Inr [OF this] have "length (calls (snd (rag endpoint_ok pool_five world0))) = 5"
    by (simp add: world0_def pool_five_def)
  with rs(1) have pos: "0 < length rs" by (simp add: world0_def)
  with rs(2) have c: "\<exists>exs. length exs = 5 \<and> set exs \<subseteq> set pool_five \<and>
          messages (rs ! 0) =
            \<lparr>role = ''system'', content = system_prompt\<rparr> #
            concat (map (\<lambda>e.
              [\<lparr>role = ''user'',
                content = generate_prompt (question e) (join newline (hints e))\<rparr>,
               \<lparr>role = ''assistant'', content = hd (answers e)\<rparr>]) exs) @
            [\<lparr>role = ''user'',
              content = generate_prompt (question (pool_five ! 0))
                          (join newline (hints (pool_five ! 0)))\<rparr>] \<and>
          map role (messages (rs ! 0)) =
            ''system'' # concat (replicate 5 [''user'', ''assistant'']) @ [''user'']"
    by blast
  show ?thesis
    by (intro exI [of _ rs] conjI; (rule rs(1) pos c))
qed


lemma strip_ok: "strip ''ok'' = ''ok''"
  by (simp add: strip_def is_space_def)

text \<open>
  Claim C7. Let the pool be \<open>pre\<close>, then \<open>inst\<close>, then \<open>post\<close>. If the loop gets through
  \<open>pre\<close> with the records \<open>acc\<close> and its body then fails on \<open>inst\<close> with the error \<open>e\<close>,
  then \<^verbatim>\<open>rag\<close> ends with that error and hands back no records: those of \<open>acc\<close> are lost.
  The state it leaves is the state right after the failing pass, so nothing was drawn or
  sent for an instance of \<open>post\<close>; the log has grown by at most one request for each
  instance of \<open>pre\<close> and one for \<open>inst\<close>.
\<close>

theorem rag_aborts_on_failure:
  assumes "pool = pre @ inst # post"
    and "fst (rag_loop 5 ep pool pre ([], []) w) = Inr acc"
    and "fst (rag_body 5 ep pool acc inst (snd (rag_loop 5 ep pool pre ([], []) w))) = Inl e"
  shows "rag ep pool w =
           (Inl e, snd (rag_body 5 ep pool acc inst (snd (rag_loop 5 ep pool pre ([], []) w)))) \<and>
         length (calls (snd (rag ep pool w))) \<le> length (calls w) + length pre + 1"
proof -
  obtain w1 where l1: "rag_loop 5 ep pool pre ([], []) w = (Inr acc, w1)"
    using assms(2) by (cases "rag_loop 5 ep pool pre ([], []) w") simp
  obtain w2 where b: "rag_body 5 ep pool acc inst w1 = (Inl e, w2)"
    using assms(3) l1 by (cases "rag_body 5 ep pool acc inst w1") simp
  have "rag_loop 5 ep pool (pre @ inst # post) ([], []) w = (Inl e, w2)"
    by (simp add: rag_loop_append l1 b)
  then have r: "rag ep pool w = (Inl e, w2)"
    by (simp add: rag_def rag_shots_def assms(1) [symmetric])
  obtain ps ts where acc: "acc = (ps, ts)" by (cases acc)
  from rag_loop_Inr [OF l1 [unfolded acc]]
  have c1: "length (calls w1) = length (calls w) + length pre" by simp
  from rag_body_cases [OF b] have "length (calls w2) \<le> length (calls w1) + 1"
    by auto
  with c1 r show ?thesis by (simp add: l1 b)
qed

theorem rag_aborts_on_failure_witness:
  "pool_five = [instance_A] @ instance_B # [instance_C, instance_D, instance_E] \<and>
   fst (rag_loop 5 (endpoint_down_at 1) pool_five [instance_A] ([], []) world0) =
     Inr ([''ok''], [''Paris'']) \<and>
   fst (rag_body 5 (endpoint_down_at 1) pool_five ([''ok''], [''Paris'']) instance_B
         (snd (rag_loop 5 (endpoint_down_at 1) pool_five [instance_A] ([], []) world0))) =
     Inl (APIError ''429'') \<and>
   fst (rag (endpoint_down_at 1) pool_five world0) = Inl (APIError ''429'') \<and>
   length (calls (snd (rag (endpoint_down_at 1) pool_five world0))) \<le> 2"
proof -
  let ?ep = "endpoint_down_at 1"
  let ?w1 = "snd (rag_loop 5 ?ep pool_five [instance_A] ([], []) world0)"
  have a_ne: "answers instance_A \<noteq> []" and b_ne: "answers instance_B \<noteq> []"
    by (simp_all add: instance_A_def instance_B_def)
  have h1: "pool_five = [instance_A] @ instance_B # [instance_C, instance_D, instance_E]"
    by (simp add: pool_five_def)
  have h2: "fst (rag_loop 5 ?ep pool_five [instance_A] ([], []) world0) =
              Inr ([''ok''], [''Paris''])"
  proof -
    have "hd (answers instance_A) = ''Paris''" by (simp add: instance_A_def)
    then show ?thesis
      by (simp add: rag_body_run [OF pool_five_ok a_ne] Let_def endpoint_down_at_def world0_def
            strip_ok)
  qed
  have "rag_loop 5 ?ep pool_five [instance_A] ([], []) world0 = (Inr ([''ok''], [''Paris'']), ?w1)"
    using h2 by (simp add: prod_eq_iff)
  from rag_loop_Inr [OF this] have len: "length (calls ?w1) = 1"
    by (simp add: world0_def)
  have h3: "fst (rag_body 5 ?ep pool_five ([''ok''], [''Paris'']) instance_B ?w1) =
              Inl (APIError ''429'')"
    unfolding rag_body_run [OF pool_five_ok b_ne] Let_def len
    by (simp add: endpoint_down_at_def)
  note c = rag_aborts_on_failure [OF h1 h2 h3]
  have c1: "fst (rag ?ep pool_five world0) = Inl (APIError ''429'')"
    by (simp only: c [THEN conjunct1] fst_conv)
  have c2: "length (calls (snd (rag ?ep pool_five world0))) \<le> 2"
    using c [THEN conjunct2] by (simp add: world0_def)
  show ?thesis
    by (intro conjI; (rule h1 h2 h3 c1 c2))
qed

text \<open>
  \<^verbatim>\<open>rag\<close> itself cannot run the scenario of two instances: asking for five exemplars, it
  fails with \<^verbatim>\<open>ValueError\<close> on every pool of one to four instances (lemma
  \<open>rag_small_pool\<close>). The scenario is a run of the loop with no exemplars.
\<close>



end
